theory Spec2Isabelle
  imports Main "HOL-Library.Word" "HOL-Library.Multiset"
begin

section \<open>The pipeline of precode.go as a labelled transition system\<close>

text \<open>
  The program starts one Generator goroutine, \<open>NumOut\<close> Worker goroutines, \<open>NumOut\<close>
  collector goroutines (the anonymous function of lines 91-103), one closer goroutine
  (lines 106-111), and drains the result channel on the main goroutine before it checks
  the totals.  Each goroutine is modelled by a program counter and its local
  variables; one transition is one channel operation, one access to a variable shared
  between goroutines, or one synchronisation call, together with the goroutine-local
  computation that follows it.  A transition is named by an \<open>event\<close>; a run of the
  program is a list of events, so that the run doubles as the log of what happened.

  Go's \<open>int64\<close> is \<open>64 word\<close>: addition and subtraction wrap around.
\<close>

type_synonym int64 = "64 word"

subsection \<open>Program counters\<close>

text \<open>
  Generator (lines 16-31): \<open>GSelect\<close> is the \<open>select\<close> of line 22, \<open>GSend\<close> the send
  \<open>ch <- i\<close> of line 26, \<open>GFn\<close> the call \<open>fn(i)\<close> of line 27 (followed by \<open>i++\<close>),
  \<open>GDone\<close> the state after \<open>return\<close> and the deferred \<open>close(ch)\<close>.
\<close>

datatype gpc = GSelect | GSend | GFn | GDone

text \<open>
  Worker (lines 34-49): \<open>WRange\<close> waits in \<open>for v := range in\<close>, \<open>WSend v\<close> is at
  \<open>out <- v\<close>, \<open>WSleep\<close> at \<open>time.Sleep\<close>, \<open>WDone\<close> after the deferred \<open>close(out)\<close>.
\<close>

datatype wpc = WRange | WSend int64 | WSleep | WDone

text \<open>
  Collector (lines 91-103): \<open>CRange\<close> waits in \<open>for v := range in_cn\<close>, \<open>CTally v\<close> is at
  \<open>amounts[cn]++\<close>, \<open>CSend v\<close> at \<open>chOut <- v\<close>, \<open>CDone\<close> after the deferred \<open>wg.Done()\<close>.
\<close>

datatype cpc = CRange | CTally int64 | CSend int64 | CDone

text \<open>Closer (lines 106-111): at \<open>wg.Wait()\<close>, at \<open>close(chOut)\<close>, finished.\<close>

datatype kpc = KWait | KClose | KDone

text \<open>
  The three calls of \<open>log.Fatalf\<close> (lines 135, 138, 144), with the values they print.
\<close>

datatype diag = SumMismatch int64 int64 | CountMismatch int64 int64 | SplitMismatch

text \<open>
  The main goroutine after its set-up: in \<open>for v := range chOut\<close> (line 124), at the
  checks of lines 134-145, and after the process has ended, either by \<open>log.Fatalf\<close>
  (\<open>Inl\<close> the diagnostic) or by returning from \<open>main\<close>.
\<close>

datatype mpc = MRange | MVerify | MExit "diag + unit"

subsection \<open>State\<close>

text \<open>
  An unbuffered channel (\<open>chIn\<close>, \<open>outs[k]\<close>) holds no value: its state is whether it is
  closed, and a send is a joint transition of sender and receiver.  \<open>chOut\<close> has a
  buffer of capacity \<open>NumOut\<close>.
\<close>

record state =
  ctx_done :: bool             \<comment> \<open>\<open>ctx.Done()\<close> is closed: the timeout has expired\<close>
  gpc :: gpc
  gi :: int64                  \<comment> \<open>the Generator's \<open>i\<close>\<close>
  chIn_closed :: bool
  inputSum :: int64
  inputCount :: int64
  wpc :: "wpc list"
  outs_closed :: "bool list"
  cpc :: "cpc list"
  amounts :: "int64 list"
  chOut :: "int64 list"        \<comment> \<open>the buffer of \<open>chOut\<close>, oldest value first\<close>
  chOut_closed :: bool
  wg :: int                    \<comment> \<open>the counter of the \<open>sync.WaitGroup\<close>\<close>
  kpc :: kpc
  mpc :: mpc
  count_main :: int64          \<comment> \<open>\<open>count\<close> of line 113\<close>
  sum_main :: int64            \<comment> \<open>\<open>sum\<close> of line 114\<close>
  panicked :: bool             \<comment> \<open>a run-time panic has ended the process\<close>

definition NumOut :: nat where
  "NumOut = 5"

text \<open>
  The state when \<open>main\<close> reaches line 124.  The set-up of lines 52-111 runs on the main
  goroutine alone: it creates the channels, adds one to \<open>wg\<close> for each collector, and
  starts the goroutines.  A goroutine that has been started and has not yet taken a
  transition cannot be told from one that has not been started, and the closer, the only
  reader of \<open>wg\<close>, is started after the last \<open>wg.Add(1)\<close>; so every goroutine is
  taken as started, at its first statement, and \<open>wg\<close> as \<open>n\<close>.
\<close>

definition init :: "nat \<Rightarrow> state" where
  "init n = \<lparr> ctx_done = False, gpc = GSelect, gi = 1, chIn_closed = False,
     inputSum = 0, inputCount = 0,
     wpc = replicate n WRange, outs_closed = replicate n False,
     cpc = replicate n CRange, amounts = replicate n 0,
     chOut = [], chOut_closed = False, wg = int n, kpc = KWait,
     mpc = MRange, count_main = 0, sum_main = 0, panicked = False \<rparr>"

subsection \<open>The checks of lines 134-145\<close>

definition Verifier :: "int64 \<Rightarrow> int64 \<Rightarrow> int64 \<Rightarrow> int64 \<Rightarrow> int64 list \<Rightarrow> diag + unit" where
  "Verifier inSum inCount sm cnt amts =
     (if inSum \<noteq> sm then Inl (SumMismatch inSum sm)
      else if inCount \<noteq> cnt then Inl (CountMismatch inCount cnt)
      else if foldl (\<lambda>c v. c - v) inCount amts \<noteq> 0 then Inl SplitMismatch
      else Inr ())"

text \<open>What \<open>log.Fatalf\<close> has written when the process ends.\<close>

definition diagnostics :: "diag + unit \<Rightarrow> diag list" where
  "diagnostics r = (case r of Inl d \<Rightarrow> [d] | Inr _ \<Rightarrow> [])"

subsection \<open>Transitions\<close>

datatype event =
    Timeout                  \<comment> \<open>the deadline of \<open>ctx\<close> passes\<close>
  | GenDefault               \<comment> \<open>line 25: \<open>select\<close> takes \<open>default\<close>\<close>
  | GenReturn                \<comment> \<open>lines 23-24: \<open><-ctx.Done()\<close>, \<open>return\<close>, deferred \<open>close(ch)\<close>\<close>
  | SendIn nat int64         \<comment> \<open>line 26 with line 45: Worker \<open>k\<close> receives \<open>i\<close> from \<open>chIn\<close>\<close>
  | Observe int64            \<comment> \<open>lines 27-28: \<open>fn(i)\<close>, \<open>i++\<close>\<close>
  | WorkerReturn nat         \<comment> \<open>line 45 on a closed \<open>in\<close>: loop ends, deferred \<open>close(out)\<close>\<close>
  | SendOuts nat int64       \<comment> \<open>line 46 with line 99: collector \<open>k\<close> receives \<open>v\<close> from \<open>outs[k]\<close>\<close>
  | Sleep nat                \<comment> \<open>line 47\<close>
  | Tally nat                \<comment> \<open>line 100: \<open>amounts[cn]++\<close>\<close>
  | SendOut nat int64        \<comment> \<open>line 101: collector \<open>k\<close> puts \<open>v\<close> into \<open>chOut\<close>\<close>
  | CollectorReturn nat      \<comment> \<open>line 99 on a closed \<open>in_cn\<close>: loop ends, deferred \<open>wg.Done()\<close>\<close>
  | WaitReturn               \<comment> \<open>line 108: \<open>wg.Wait()\<close> returns\<close>
  | CloseOut                 \<comment> \<open>line 110: \<open>close(chOut)\<close>\<close>
  | RecvOut int64            \<comment> \<open>lines 124-126: main receives \<open>v\<close>; \<open>count++\<close>; \<open>sum += v\<close>\<close>
  | Drained                  \<comment> \<open>line 124 on a closed and empty \<open>chOut\<close>: loop ends\<close>
  | Verify                   \<comment> \<open>lines 134-145\<close>

text \<open>
  Sending on a closed channel, closing a closed channel and driving the counter of a
  \<open>WaitGroup\<close> below zero panic in Go; the transition then sets \<open>panicked\<close>.
\<close>

definition panic :: "state \<Rightarrow> state option" where
  "panic s = Some (s\<lparr>panicked := True\<rparr>)"

fun fire :: "nat \<Rightarrow> state \<Rightarrow> event \<Rightarrow> state option" where
  "fire n s Timeout =
     (if ctx_done s then None else Some (s\<lparr>ctx_done := True\<rparr>))"
| "fire n s GenDefault =
     (if gpc s = GSelect \<and> \<not> ctx_done s then Some (s\<lparr>gpc := GSend\<rparr>) else None)"
| "fire n s GenReturn =
     (if gpc s = GSelect \<and> ctx_done s then
        (if chIn_closed s then panic s
         else Some (s\<lparr>chIn_closed := True, gpc := GDone\<rparr>))
      else None)"
| "fire n s (SendIn k v) =
     (if gpc s = GSend \<and> v = gi s then
        (if chIn_closed s then panic s
         else if k < n \<and> wpc s ! k = WRange
           then Some (s\<lparr>gpc := GFn, wpc := (wpc s)[k := WSend v]\<rparr>)
         else None)
      else None)"
| "fire n s (Observe v) =
     (if gpc s = GFn \<and> v = gi s then
        Some (s\<lparr>inputSum := inputSum s + v, inputCount := inputCount s + 1,
                gi := gi s + 1, gpc := GSelect\<rparr>)
      else None)"
| "fire n s (WorkerReturn k) =
     (if k < n \<and> wpc s ! k = WRange \<and> chIn_closed s then
        (if outs_closed s ! k then panic s
         else Some (s\<lparr>outs_closed := (outs_closed s)[k := True],
                      wpc := (wpc s)[k := WDone]\<rparr>))
      else None)"
| "fire n s (SendOuts k v) =
     (if k < n \<and> wpc s ! k = WSend v then
        (if outs_closed s ! k then panic s
         else if cpc s ! k = CRange
           then Some (s\<lparr>wpc := (wpc s)[k := WSleep], cpc := (cpc s)[k := CTally v]\<rparr>)
         else None)
      else None)"
| "fire n s (Sleep k) =
     (if k < n \<and> wpc s ! k = WSleep then Some (s\<lparr>wpc := (wpc s)[k := WRange]\<rparr>)
      else None)"
| "fire n s (Tally k) =
     (if k < n then
        (case cpc s ! k of
           CTally v \<Rightarrow> Some (s\<lparr>amounts := (amounts s)[k := amounts s ! k + 1],
                               cpc := (cpc s)[k := CSend v]\<rparr>)
         | _ \<Rightarrow> None)
      else None)"
| "fire n s (SendOut k v) =
     (if k < n \<and> cpc s ! k = CSend v then
        (if chOut_closed s then panic s
         else if length (chOut s) < n
           then Some (s\<lparr>chOut := chOut s @ [v], cpc := (cpc s)[k := CRange]\<rparr>)
         else None)
      else None)"
| "fire n s (CollectorReturn k) =
     (if k < n \<and> cpc s ! k = CRange \<and> outs_closed s ! k then
        (if wg s - 1 < 0 then panic s
         else Some (s\<lparr>wg := wg s - 1, cpc := (cpc s)[k := CDone]\<rparr>))
      else None)"
| "fire n s WaitReturn =
     (if kpc s = KWait \<and> wg s = 0 then Some (s\<lparr>kpc := KClose\<rparr>) else None)"
| "fire n s CloseOut =
     (if kpc s = KClose then
        (if chOut_closed s then panic s
         else Some (s\<lparr>chOut_closed := True, kpc := KDone\<rparr>))
      else None)"
| "fire n s (RecvOut v) =
     (if mpc s = MRange then
        (case chOut s of
           [] \<Rightarrow> None
         | x # xs \<Rightarrow>
             if v = x then Some (s\<lparr>chOut := xs, count_main := count_main s + 1,
                                    sum_main := sum_main s + v\<rparr>)
             else None)
      else None)"
| "fire n s Drained =
     (if mpc s = MRange \<and> chOut s = [] \<and> chOut_closed s then Some (s\<lparr>mpc := MVerify\<rparr>)
      else None)"
| "fire n s Verify =
     (if mpc s = MVerify then
        Some (s\<lparr>mpc := MExit (Verifier (inputSum s) (inputCount s) (sum_main s)
                                (count_main s) (amounts s))\<rparr>)
      else None)"

text \<open>The process has ended: by a panic, or because \<open>main\<close> has returned or exited.\<close>

definition halted :: "state \<Rightarrow> bool" where
  "halted s = (panicked s \<or> (case mpc s of MExit _ \<Rightarrow> True | _ \<Rightarrow> False))"

definition step :: "nat \<Rightarrow> state \<Rightarrow> event \<Rightarrow> state option" where
  "step n s e = (if halted s then None else fire n s e)"

text \<open>A run: the events in order; \<open>None\<close> when some event is not possible where it stands.\<close>

fun run :: "nat \<Rightarrow> event list \<Rightarrow> state \<Rightarrow> state option" where
  "run n [] s = Some s"
| "run n (e # es) s = (case step n s e of None \<Rightarrow> None | Some s' \<Rightarrow> run n es s')"

definition sent :: "event list \<Rightarrow> int64 list" where
  "sent tr = concat (map (\<lambda>e. case e of SendIn k v \<Rightarrow> [v] | _ \<Rightarrow> []) tr)"

definition observed :: "event list \<Rightarrow> int64 list" where
  "observed tr = concat (map (\<lambda>e. case e of Observe v \<Rightarrow> [v] | _ \<Rightarrow> []) tr)"

definition received :: "event list \<Rightarrow> int64 list" where
  "received tr = concat (map (\<lambda>e. case e of RecvOut v \<Rightarrow> [v] | _ \<Rightarrow> []) tr)"

definition worker_in :: "nat \<Rightarrow> event list \<Rightarrow> int64 list" where
  "worker_in k tr = concat (map (\<lambda>e. case e of SendIn j v \<Rightarrow> if j = k then [v] else [] | _ \<Rightarrow> []) tr)"

definition worker_out :: "nat \<Rightarrow> event list \<Rightarrow> int64 list" where
  "worker_out k tr = concat (map (\<lambda>e. case e of SendOuts j v \<Rightarrow> if j = k then [v] else [] | _ \<Rightarrow> []) tr)"

fun held_w :: "wpc \<Rightarrow> int64 list" where
  "held_w (WSend v) = [v]"
| "held_w _ = []"

fun held_c :: "cpc \<Rightarrow> int64 list" where
  "held_c (CTally v) = [v]"
| "held_c (CSend v) = [v]"
| "held_c _ = []"

definition in_flight :: "state \<Rightarrow> int64 list" where
  "in_flight s = concat (map held_w (wpc s)) @ concat (map held_c (cpc s)) @ chOut s"

fun tallied :: "cpc \<Rightarrow> bool" where
  "tallied (CSend v) = True"
| "tallied _ = False"

definition pending :: "cpc list \<Rightarrow> nat" where
  "pending cs = length (filter (\<lambda>c. c \<noteq> CDone) cs)"

definition inv_len :: "nat \<Rightarrow> state \<Rightarrow> bool" where
  "inv_len n s \<longleftrightarrow>
     length (wpc s) = n \<and> length (outs_closed s) = n \<and> length (cpc s) = n \<and>
     length (amounts s) = n \<and> length (chOut s) \<le> n"

definition inv_gen :: "state \<Rightarrow> bool" where
  "inv_gen s \<longleftrightarrow> (chIn_closed s \<longleftrightarrow> gpc s = GDone) \<and> (gpc s = GDone \<longrightarrow> ctx_done s)"

definition inv_worker :: "nat \<Rightarrow> state \<Rightarrow> bool" where
  "inv_worker n s \<longleftrightarrow>
     (\<forall>k<n. (outs_closed s ! k \<longleftrightarrow> wpc s ! k = WDone) \<and>
            (wpc s ! k = WDone \<longrightarrow> chIn_closed s))"

definition inv_coll :: "nat \<Rightarrow> state \<Rightarrow> bool" where
  "inv_coll n s \<longleftrightarrow>
     (\<forall>k<n. cpc s ! k = CDone \<longrightarrow> outs_closed s ! k) \<and> wg s = int (pending (cpc s))"

definition inv_closer :: "state \<Rightarrow> bool" where
  "inv_closer s \<longleftrightarrow>
     (kpc s \<noteq> KWait \<longrightarrow> wg s = 0) \<and> (chOut_closed s \<longleftrightarrow> kpc s = KDone) \<and>
     (mpc s \<noteq> MRange \<longrightarrow> chOut_closed s \<and> chOut s = [])"

definition inv_state :: "nat \<Rightarrow> state \<Rightarrow> bool" where
  "inv_state n s \<longleftrightarrow>
     inv_len n s \<and> \<not> panicked s \<and> inv_gen s \<and> inv_worker n s \<and> inv_coll n s \<and> inv_closer s"

definition collector_out :: "nat \<Rightarrow> event list \<Rightarrow> int64 list" where
  "collector_out k tr = concat (map (\<lambda>e. case e of SendOut j v \<Rightarrow> if j = k then [v] else [] | _ \<Rightarrow> []) tr)"

definition inv_counters :: "event list \<Rightarrow> state \<Rightarrow> bool" where
  "inv_counters tr s \<longleftrightarrow>
     count_main s = of_nat (length (received tr)) \<and> sum_main s = sum_list (received tr) \<and>
     inputCount s = of_nat (length (observed tr)) \<and> inputSum s = sum_list (observed tr)"

definition inv_generator :: "event list \<Rightarrow> state \<Rightarrow> bool" where
  "inv_generator tr s \<longleftrightarrow>
     sent tr = observed tr @ (if gpc s = GFn then [gi s] else []) \<and>
     map of_nat [1..<Suc (length (observed tr))] = observed tr \<and>
     gi s = of_nat (Suc (length (observed tr)))"

definition inv_tally :: "state \<Rightarrow> bool" where
  "inv_tally s \<longleftrightarrow>
     sum_list (amounts s) =
       count_main s + of_nat (length (chOut s)) + of_nat (length (filter tallied (cpc s)))"

definition inv_branch :: "nat \<Rightarrow> event list \<Rightarrow> state \<Rightarrow> bool" where
  "inv_branch n tr s \<longleftrightarrow>
     (\<forall>k<n. worker_in k tr = worker_out k tr @ held_w (wpc s ! k) \<and>
            worker_out k tr = collector_out k tr @ held_c (cpc s ! k) \<and>
            amounts s ! k =
              of_nat (length (collector_out k tr) + (if tallied (cpc s ! k) then 1 else 0)))"

definition inv_closes :: "nat \<Rightarrow> event list \<Rightarrow> state \<Rightarrow> bool" where
  "inv_closes n tr s \<longleftrightarrow>
     count_list tr GenReturn = (if chIn_closed s then 1 else 0) \<and>
     (\<forall>k<n. count_list tr (WorkerReturn k) = (if outs_closed s ! k then 1 else 0)) \<and>
     (\<forall>k<n. count_list tr (CollectorReturn k) = (if cpc s ! k = CDone then 1 else 0)) \<and>
     count_list tr CloseOut = (if chOut_closed s then 1 else 0)"

definition inv_trace :: "nat \<Rightarrow> event list \<Rightarrow> state \<Rightarrow> bool" where
  "inv_trace n tr s \<longleftrightarrow>
     mset (sent tr) = mset (received tr) + mset (in_flight s) \<and>
     inv_counters tr s \<and> inv_generator tr s \<and> inv_tally s \<and> inv_branch n tr s \<and>
     inv_closes n tr s"

text \<open>A complete run of the program with two values, and the state it ends in.\<close>

definition sample_run :: "event list" where
  "sample_run =
     [GenDefault, SendIn 0 1, Observe 1, SendOuts 0 1, Tally 0, SendOut 0 1, RecvOut 1, Sleep 0,
      GenDefault, Timeout, SendIn 3 2, Observe 2, GenReturn, SendOuts 3 2, Tally 3,
      WorkerReturn 0, WorkerReturn 1, WorkerReturn 2, WorkerReturn 4, SendOut 3 2, Sleep 3,
      WorkerReturn 3, CollectorReturn 0, CollectorReturn 1, CollectorReturn 2,
      CollectorReturn 3, CollectorReturn 4, WaitReturn, RecvOut 2, CloseOut, Drained, Verify]"

definition sample_final :: state where
  "sample_final = \<lparr> ctx_done = True, gpc = GDone, gi = 3, chIn_closed = True,
     inputSum = 3, inputCount = 2,
     wpc = [WDone, WDone, WDone, WDone, WDone],
     outs_closed = [True, True, True, True, True],
     cpc = [CDone, CDone, CDone, CDone, CDone], amounts = [1, 0, 0, 1, 0],
     chOut = [], chOut_closed = True, wg = 0, kpc = KDone,
     mpc = MExit (Inr ()), count_main = 2, sum_main = 3, panicked = False \<rparr>"

lemma run_append:
  "run n (xs @ ys) s = (case run n xs s of None \<Rightarrow> None | Some s' \<Rightarrow> run n ys s')"
  by (induction xs arbitrary: s) (auto split: option.splits)

lemma run_snoc:
  "run n (tr @ [e]) s0 = Some s' \<longleftrightarrow> (\<exists>s. run n tr s0 = Some s \<and> step n s e = Some s')"
  by (auto simp: run_append split: option.splits)

lemma run_induct [consumes 1, case_names Init Step]:
  assumes "run n tr s0 = Some s"
    and "P [] s0"
    and "\<And>tr s e s'. run n tr s0 = Some s \<Longrightarrow> P tr s \<Longrightarrow> step n s e = Some s' \<Longrightarrow> P (tr @ [e]) s'"
  shows "P tr s"
  using assms(1)
proof (induction tr arbitrary: s rule: rev_induct)
  case Nil
  then show ?case using assms(2) by simp
next
  case (snoc e tr)
  then obtain s1 where "run n tr s0 = Some s1" "step n s1 e = Some s"
    by (auto simp: run_snoc)
  then show ?case using snoc.IH assms(3) by blast
qed

lemma length_filter_update:
  "k < length xs \<Longrightarrow>
     length (filter P (xs[k := y])) + (if P (xs ! k) then 1 else 0) =
     length (filter P xs) + (if P y then 1 else 0)"
proof (induction xs arbitrary: k)
  case Nil
  then show ?case by simp
next
  case (Cons x xs)
  then show ?case by (cases k) auto
qed

lemma pending_keep:
  "k < length cs \<Longrightarrow> cs ! k \<noteq> CDone \<Longrightarrow> c \<noteq> CDone \<Longrightarrow> pending (cs[k := c]) = pending cs"
  using length_filter_update [of k cs "\<lambda>c. c \<noteq> CDone" c] by (simp add: pending_def)

lemma pending_done:
  "k < length cs \<Longrightarrow> cs ! k \<noteq> CDone \<Longrightarrow> Suc (pending (cs[k := CDone])) = pending cs"
  using length_filter_update [of k cs "\<lambda>c. c \<noteq> CDone" CDone] by (simp add: pending_def)

lemma pending_0: "pending cs = 0 \<longleftrightarrow> (\<forall>k<length cs. cs ! k = CDone)"
  by (auto simp: pending_def filter_empty_conv all_set_conv_all_nth)

lemma stepE [consumes 1, case_names Timeout GenDefault GenReturn SendIn Observe WorkerReturn
    SendOuts Sleep Tally SendOut CollectorReturn WaitReturn CloseOut RecvOut Drained Verify Panic]:
  assumes "step n s e = Some s'"
  obtains
    "e = Timeout" "\<not> halted s" "\<not> ctx_done s" "s' = s\<lparr>ctx_done := True\<rparr>"
  | "e = GenDefault" "\<not> halted s" "gpc s = GSelect" "\<not> ctx_done s" "s' = s\<lparr>gpc := GSend\<rparr>"
  | "e = GenReturn" "\<not> halted s" "gpc s = GSelect" "ctx_done s" "\<not> chIn_closed s"
      "s' = s\<lparr>chIn_closed := True, gpc := GDone\<rparr>"
  | k v where "e = SendIn k v" "\<not> halted s" "gpc s = GSend" "v = gi s" "\<not> chIn_closed s"
      "k < n" "wpc s ! k = WRange" "s' = s\<lparr>gpc := GFn, wpc := (wpc s)[k := WSend v]\<rparr>"
  | v where "e = Observe v" "\<not> halted s" "gpc s = GFn" "v = gi s"
      "s' = s\<lparr>inputSum := inputSum s + v, inputCount := inputCount s + 1,
               gi := gi s + 1, gpc := GSelect\<rparr>"
  | k where "e = WorkerReturn k" "\<not> halted s" "k < n" "wpc s ! k = WRange" "chIn_closed s"
      "\<not> outs_closed s ! k"
      "s' = s\<lparr>outs_closed := (outs_closed s)[k := True], wpc := (wpc s)[k := WDone]\<rparr>"
  | k v where "e = SendOuts k v" "\<not> halted s" "k < n" "wpc s ! k = WSend v"
      "\<not> outs_closed s ! k" "cpc s ! k = CRange"
      "s' = s\<lparr>wpc := (wpc s)[k := WSleep], cpc := (cpc s)[k := CTally v]\<rparr>"
  | k where "e = Sleep k" "\<not> halted s" "k < n" "wpc s ! k = WSleep"
      "s' = s\<lparr>wpc := (wpc s)[k := WRange]\<rparr>"
  | k v where "e = Tally k" "\<not> halted s" "k < n" "cpc s ! k = CTally v"
      "s' = s\<lparr>amounts := (amounts s)[k := amounts s ! k + 1], cpc := (cpc s)[k := CSend v]\<rparr>"
  | k v where "e = SendOut k v" "\<not> halted s" "k < n" "cpc s ! k = CSend v"
      "\<not> chOut_closed s" "length (chOut s) < n"
      "s' = s\<lparr>chOut := chOut s @ [v], cpc := (cpc s)[k := CRange]\<rparr>"
  | k where "e = CollectorReturn k" "\<not> halted s" "k < n" "cpc s ! k = CRange"
      "outs_closed s ! k" "0 < wg s" "s' = s\<lparr>wg := wg s - 1, cpc := (cpc s)[k := CDone]\<rparr>"
  | "e = WaitReturn" "\<not> halted s" "kpc s = KWait" "wg s = 0" "s' = s\<lparr>kpc := KClose\<rparr>"
  | "e = CloseOut" "\<not> halted s" "kpc s = KClose" "\<not> chOut_closed s"
      "s' = s\<lparr>chOut_closed := True, kpc := KDone\<rparr>"
  | v xs where "e = RecvOut v" "\<not> halted s" "mpc s = MRange" "chOut s = v # xs"
      "s' = s\<lparr>chOut := xs, count_main := count_main s + 1, sum_main := sum_main s + v\<rparr>"
  | "e = Drained" "\<not> halted s" "mpc s = MRange" "chOut s = []" "chOut_closed s"
      "s' = s\<lparr>mpc := MVerify\<rparr>"
  | "e = Verify" "\<not> halted s" "mpc s = MVerify"
      "s' = s\<lparr>mpc := MExit (Verifier (inputSum s) (inputCount s) (sum_main s)
                              (count_main s) (amounts s))\<rparr>"
  | "s' = s\<lparr>panicked := True\<rparr>"
      "(gpc s = GSelect \<and> ctx_done s \<and> chIn_closed s) \<or>
       (gpc s = GSend \<and> chIn_closed s) \<or>
       (\<exists>k<n. wpc s ! k = WRange \<and> chIn_closed s \<and> outs_closed s ! k) \<or>
       (\<exists>k<n. \<exists>v. wpc s ! k = WSend v \<and> outs_closed s ! k) \<or>
       (\<exists>k<n. \<exists>v. cpc s ! k = CSend v \<and> chOut_closed s) \<or>
       (\<exists>k<n. cpc s ! k = CRange \<and> outs_closed s ! k \<and> wg s \<le> 0) \<or>
       (kpc s = KClose \<and> chOut_closed s)"
proof (cases e)
  case Timeout
  with assms have "\<not> halted s" "\<not> ctx_done s" "s' = s\<lparr>ctx_done := True\<rparr>"
    by (simp_all add: step_def split: if_splits)
  then show ?thesis using that(1) Timeout by blast
next
  case GenDefault
  with assms have "\<not> halted s" "gpc s = GSelect" "\<not> ctx_done s" "s' = s\<lparr>gpc := GSend\<rparr>"
    by (simp_all add: step_def split: if_splits)
  then show ?thesis using that(2) GenDefault by blast
next
  case GenReturn
  with assms have h: "\<not> halted s" "gpc s = GSelect" "ctx_done s"
    and d: "if chIn_closed s then s' = s\<lparr>panicked := True\<rparr>
            else s' = s\<lparr>chIn_closed := True, gpc := GDone\<rparr>"
    by (simp_all add: step_def panic_def split: if_splits)
  show ?thesis
  proof (cases "chIn_closed s")
    case True
    then show ?thesis using that(17) h d by simp
  next
    case False
    then show ?thesis using that(3) GenReturn h d by simp
  qed
next
  case (SendIn k v)
  with assms have h: "\<not> halted s" "gpc s = GSend" "v = gi s"
    and d: "if chIn_closed s then s' = s\<lparr>panicked := True\<rparr>
            else k < n \<and> wpc s ! k = WRange \<and> s' = s\<lparr>gpc := GFn, wpc := (wpc s)[k := WSend v]\<rparr>"
    by (simp_all add: step_def panic_def split: if_splits)
  show ?thesis
  proof (cases "chIn_closed s")
    case True
    then show ?thesis using that(17) h d by simp
  next
    case False
    then show ?thesis using that(4) SendIn h d by simp
  qed
next
  case (Observe v)
  with assms have "\<not> halted s" "gpc s = GFn" "v = gi s"
      "s' = s\<lparr>inputSum := inputSum s + v, inputCount := inputCount s + 1,
               gi := gi s + 1, gpc := GSelect\<rparr>"
    by (simp_all add: step_def split: if_splits)
  then show ?thesis using that(5) Observe by blast
next
  case (WorkerReturn k)
  with assms have h: "\<not> halted s" "k < n" "wpc s ! k = WRange" "chIn_closed s"
    and d: "if outs_closed s ! k then s' = s\<lparr>panicked := True\<rparr>
            else s' = s\<lparr>outs_closed := (outs_closed s)[k := True], wpc := (wpc s)[k := WDone]\<rparr>"
    by (simp_all add: step_def panic_def split: if_splits)
  show ?thesis
  proof (cases "outs_closed s ! k")
    case True
    then have "\<exists>k<n. wpc s ! k = WRange \<and> chIn_closed s \<and> outs_closed s ! k"
      using h by blast
    then show ?thesis using that(17) True d by simp
  next
    case False
    then show ?thesis using that(6) WorkerReturn h d by simp
  qed
next
  case (SendOuts k v)
  with assms have h: "\<not> halted s" "k < n" "wpc s ! k = WSend v"
    and d: "if outs_closed s ! k then s' = s\<lparr>panicked := True\<rparr>
            else cpc s ! k = CRange \<and>
                 s' = s\<lparr>wpc := (wpc s)[k := WSleep], cpc := (cpc s)[k := CTally v]\<rparr>"
    by (simp_all add: step_def panic_def split: if_splits)
  show ?thesis
  proof (cases "outs_closed s ! k")
    case True
    then have "\<exists>k<n. \<exists>v. wpc s ! k = WSend v \<and> outs_closed s ! k"
      using h by blast
    then show ?thesis using that(17) True d by simp
  next
    case False
    then show ?thesis using that(7) SendOuts h d by simp
  qed
next
  case (Sleep k)
  with assms have "\<not> halted s" "k < n" "wpc s ! k = WSleep" "s' = s\<lparr>wpc := (wpc s)[k := WRange]\<rparr>"
    by (simp_all add: step_def split: if_splits)
  then show ?thesis using that(8) Sleep by blast
next
  case (Tally k)
  with assms have h: "\<not> halted s" "k < n"
    and d: "\<exists>v. cpc s ! k = CTally v \<and>
       s' = s\<lparr>amounts := (amounts s)[k := amounts s ! k + 1], cpc := (cpc s)[k := CSend v]\<rparr>"
    by (simp_all add: step_def split: if_splits cpc.splits)
  then show ?thesis using that(9) Tally by blast
next
  case (SendOut k v)
  with assms have h: "\<not> halted s" "k < n" "cpc s ! k = CSend v"
    and d: "if chOut_closed s then s' = s\<lparr>panicked := True\<rparr>
            else length (chOut s) < n \<and>
                 s' = s\<lparr>chOut := chOut s @ [v], cpc := (cpc s)[k := CRange]\<rparr>"
    by (simp_all add: step_def panic_def split: if_splits)
  show ?thesis
  proof (cases "chOut_closed s")
    case True
    then have "\<exists>k<n. \<exists>v. cpc s ! k = CSend v \<and> chOut_closed s"
      using h by blast
    then show ?thesis using that(17) True d by simp
  next
    case False
    then show ?thesis using that(10) SendOut h d by simp
  qed
next
  case (CollectorReturn k)
  with assms have h: "\<not> halted s" "k < n" "cpc s ! k = CRange" "outs_closed s ! k"
    and d: "if wg s - 1 < 0 then s' = s\<lparr>panicked := True\<rparr>
            else s' = s\<lparr>wg := wg s - 1, cpc := (cpc s)[k := CDone]\<rparr>"
    by (simp_all add: step_def panic_def split: if_splits)
  show ?thesis
  proof (cases "wg s - 1 < 0")
    case True
    then have "\<exists>k<n. cpc s ! k = CRange \<and> outs_closed s ! k \<and> wg s \<le> 0"
      using h by auto
    then show ?thesis using that(17) True d by simp
  next
    case False
    then have "0 < wg s" by simp
    then show ?thesis using that(11) CollectorReturn h d False by simp
  qed
next
  case WaitReturn
  with assms have "\<not> halted s" "kpc s = KWait" "wg s = 0" "s' = s\<lparr>kpc := KClose\<rparr>"
    by (simp_all add: step_def split: if_splits)
  then show ?thesis using that(12) WaitReturn by blast
next
  case CloseOut
  with assms have h: "\<not> halted s" "kpc s = KClose"
    and d: "if chOut_closed s then s' = s\<lparr>panicked := True\<rparr>
            else s' = s\<lparr>chOut_closed := True, kpc := KDone\<rparr>"
    by (simp_all add: step_def panic_def split: if_splits)
  show ?thesis
  proof (cases "chOut_closed s")
    case True
    then show ?thesis using that(17) h d by simp
  next
    case False
    then show ?thesis using that(13) CloseOut h d by simp
  qed
next
  case (RecvOut v)
  with assms have h: "\<not> halted s" "mpc s = MRange"
    and d: "\<exists>xs. chOut s = v # xs \<and>
      s' = s\<lparr>chOut := xs, count_main := count_main s + 1, sum_main := sum_main s + v\<rparr>"
    by (simp_all add: step_def split: if_splits list.splits)
  then show ?thesis using that(14) RecvOut by blast
next
  case Drained
  with assms have "\<not> halted s" "mpc s = MRange" "chOut s = []" "chOut_closed s"
      "s' = s\<lparr>mpc := MVerify\<rparr>"
    by (simp_all add: step_def split: if_splits)
  then show ?thesis using that(15) Drained by blast
next
  case Verify
  with assms have "\<not> halted s" "mpc s = MVerify"
      "s' = s\<lparr>mpc := MExit (Verifier (inputSum s) (inputCount s) (sum_main s)
                              (count_main s) (amounts s))\<rparr>"
    by (simp_all add: step_def split: if_splits)
  then show ?thesis using that(16) Verify by blast
qed

lemmas inv_defs = inv_len_def inv_gen_def inv_worker_def inv_coll_def inv_closer_def

lemma inv_state_init: "inv_state n (init n)"
  by (simp add: inv_state_def inv_defs init_def pending_def)

lemma all_done:
  assumes "inv_len n s" "inv_coll n s" "wg s = 0" "k < n"
  shows "cpc s ! k = CDone"
  using assms by (simp add: inv_len_def inv_coll_def pending_0)

lemma no_panic:
  assumes "inv_state n s" "step n s e = Some s'"
  shows "\<not> panicked s'"
  using assms(2)
proof (cases rule: stepE)
  case Panic
  have a: "inv_len n s" "inv_coll n s" "inv_closer s" "inv_gen s" "inv_worker n s"
    using assms(1) by (simp_all add: inv_state_def)
  have 1: "\<not> (gpc s = GSelect \<and> ctx_done s \<and> chIn_closed s)" 
    using a(4) by (auto simp: inv_gen_def)
  have 2: "\<not> (gpc s = GSend \<and> chIn_closed s)"
    using a(4) by (auto simp: inv_gen_def)
  have 3: "\<not> (\<exists>k<n. wpc s ! k = WRange \<and> chIn_closed s \<and> outs_closed s ! k)"
    using a(5) by (auto simp: inv_worker_def)
  have 4: "\<not> (\<exists>k<n. \<exists>v. wpc s ! k = WSend v \<and> outs_closed s ! k)"
    using a(5) by (auto simp: inv_worker_def)
  have 5: "\<not> (\<exists>k<n. \<exists>v. cpc s ! k = CSend v \<and> chOut_closed s)"
  proof
    assume "\<exists>k<n. \<exists>v. cpc s ! k = CSend v \<and> chOut_closed s"
    then obtain k v where k: "k < n" "cpc s ! k = CSend v" "chOut_closed s" by blast
    then have "wg s = 0" using a(3) by (simp add: inv_closer_def)
    then have "cpc s ! k = CDone" using all_done a k(1) by blast
    then show False using k(2) by simp
  qed
  have 6: "\<not> (\<exists>k<n. cpc s ! k = CRange \<and> outs_closed s ! k \<and> wg s \<le> 0)"
  proof
    assume "\<exists>k<n. cpc s ! k = CRange \<and> outs_closed s ! k \<and> wg s \<le> 0"
    then obtain k where k: "k < n" "cpc s ! k = CRange" "wg s \<le> 0" by blast
    then have "wg s = 0" using a(2) by (simp add: inv_coll_def)
    then have "cpc s ! k = CDone" using all_done a k(1) by blast
    then show False using k(2) by simp
  qed
  have 7: "\<not> (kpc s = KClose \<and> chOut_closed s)"
    using a(3) by (auto simp: inv_closer_def)
  show ?thesis using Panic(2) 1 2 3 4 5 6 7 by blast
qed (use assms(1) in \<open>simp_all add: inv_state_def\<close>)

lemma inv_len_step: "inv_len n s \<Longrightarrow> step n s e = Some s' \<Longrightarrow> inv_len n s'"
  by (erule stepE) (simp_all add: inv_len_def)

lemma inv_gen_step:
  assumes "inv_state n s" "step n s e = Some s'"
  shows "inv_gen s'"
  using assms(2) no_panic [OF assms] assms(1)
  by (cases rule: stepE) (auto simp: inv_state_def inv_gen_def)

lemma inv_worker_step:
  assumes "inv_state n s" "step n s e = Some s'"
  shows "inv_worker n s'"
  using assms(2) no_panic [OF assms] assms(1)
  by (cases rule: stepE)
     (auto simp: inv_state_def inv_len_def inv_gen_def inv_worker_def nth_list_update)

lemma inv_coll_step:
  assumes "inv_state n s" "step n s e = Some s'"
  shows "inv_coll n s'"
  using assms(2) no_panic [OF assms] assms(1)
proof (cases rule: stepE)
  case (CollectorReturn k)
  then have "Suc (pending ((cpc s)[k := CDone])) = pending (cpc s)"
    using assms(1) by (intro pending_done) (auto simp: inv_state_def inv_len_def)
  then show ?thesis using CollectorReturn assms(1)
    by (auto simp: inv_state_def inv_len_def inv_coll_def nth_list_update)
qed (auto simp: inv_state_def inv_len_def inv_worker_def inv_coll_def nth_list_update pending_keep)

lemma inv_closer_step:
  assumes "inv_state n s" "step n s e = Some s'"
  shows "inv_closer s'"
  using assms(2) no_panic [OF assms] assms(1)
proof (cases rule: stepE)
  case (SendOuts k v)
  then show ?thesis using assms(1) all_done [of n s k]
    by (auto simp: inv_state_def inv_closer_def)
next
  case (Tally k v)
  then show ?thesis using assms(1) all_done [of n s k]
    by (auto simp: inv_state_def inv_closer_def)
next
  case (SendOut k v)
  then show ?thesis using assms(1) all_done [of n s k]
    by (auto simp: inv_state_def inv_closer_def)
qed (auto simp: inv_state_def inv_closer_def)

lemma inv_state_step:
  assumes "inv_state n s" "step n s e = Some s'"
  shows "inv_state n s'"
  using inv_len_step [OF _ assms(2)] no_panic [OF assms] inv_gen_step [OF assms]
    inv_worker_step [OF assms] inv_coll_step [OF assms] inv_closer_step [OF assms] assms(1)
  by (simp add: inv_state_def)

lemma inv_state_run: "run n tr (init n) = Some s \<Longrightarrow> inv_state n s"
  by (induction rule: run_induct) (auto intro: inv_state_init inv_state_step)

lemma mset_concat_update:
  "k < length xs \<Longrightarrow>
     mset (concat (map f (xs[k := y]))) + mset (f (xs ! k)) =
     mset (concat (map f xs)) + mset (f y)"
proof (induction xs arbitrary: k)
  case Nil
  then show ?case by simp
next
  case (Cons x xs)
  then show ?case by (cases k) (auto simp: ac_simps)
qed

lemma mset_concat_gain:
  "k < length xs \<Longrightarrow> f (xs ! k) = [] \<Longrightarrow> f y = [v] \<Longrightarrow>
     mset (concat (map f (xs[k := y]))) = add_mset v (mset (concat (map f xs)))"
  using mset_concat_update [of k xs f y] by simp

lemma mset_concat_lose:
  "k < length xs \<Longrightarrow> f (xs ! k) = [v] \<Longrightarrow> f y = [] \<Longrightarrow>
     add_mset v (mset (concat (map f (xs[k := y])))) = mset (concat (map f xs))"
  using mset_concat_update [of k xs f y] by simp

lemma mset_concat_same:
  "k < length xs \<Longrightarrow> f (xs ! k) = f y \<Longrightarrow>
     mset (concat (map f (xs[k := y]))) = mset (concat (map f xs))"
  using mset_concat_update [of k xs f y] by simp

lemma conserve_step:
  assumes "inv_state n s" "step n s e = Some s'"
    and "mset (sent tr) = mset (received tr) + mset (in_flight s)"
  shows "mset (sent (tr @ [e])) = mset (received (tr @ [e])) + mset (in_flight s')"
  using assms(2) no_panic [OF assms(1,2)] assms(1,3)
proof (cases rule: stepE)
  case (SendIn k v)
  then show ?thesis using assms(1,3)
    by (simp add: sent_def received_def in_flight_def inv_state_def inv_len_def mset_concat_gain)
next
  case (SendOuts k v)
  then have "add_mset v (mset (concat (map held_w ((wpc s)[k := WSleep])))) = mset (concat (map held_w (wpc s)))"
     "mset (concat (map held_c ((cpc s)[k := CTally v]))) = add_mset v (mset (concat (map held_c (cpc s))))"
    using assms(1)
    by (simp_all add: inv_state_def inv_len_def mset_concat_gain mset_concat_lose)
  then show ?thesis using SendOuts assms(3)
    by (simp add: sent_def received_def in_flight_def)
next
  case (SendOut k v)
  then have "add_mset v (mset (concat (map held_c ((cpc s)[k := CRange])))) = mset (concat (map held_c (cpc s)))"
    using assms(1)
    by (simp_all add: inv_state_def inv_len_def mset_concat_lose)
  then show ?thesis using SendOut assms(3)
    by (simp add: sent_def received_def in_flight_def)
qed (simp_all add: sent_def received_def in_flight_def inv_state_def inv_len_def mset_concat_same)

lemma inv_counters_step:
  assumes "inv_state n s" "step n s e = Some s'" "inv_counters tr s"
  shows "inv_counters (tr @ [e]) s'"
  using assms(2) no_panic [OF assms(1,2)] assms(3)
  by (cases rule: stepE) (simp_all add: inv_counters_def received_def observed_def)

lemma inv_generator_step:
  assumes "inv_state n s" "step n s e = Some s'" "inv_generator tr s"
  shows "inv_generator (tr @ [e]) s'"
  using assms(2) no_panic [OF assms(1,2)] assms(3)
  by (cases rule: stepE) (auto simp: inv_generator_def sent_def observed_def)

lemma sum_list_incr:
  fixes xs :: "int64 list"
  shows "k < length xs \<Longrightarrow> sum_list (xs[k := xs ! k + 1]) = sum_list xs + 1"
proof (induction xs arbitrary: k)
  case Nil
  then show ?case by simp
next
  case (Cons x xs)
  then show ?case by (cases k) auto
qed

lemma tallied_gain:
  "k < length cs \<Longrightarrow> \<not> tallied (cs ! k) \<Longrightarrow> tallied c \<Longrightarrow>
     length (filter tallied (cs[k := c])) = Suc (length (filter tallied cs))"
  using length_filter_update [of k cs tallied c] by simp

lemma tallied_lose:
  "k < length cs \<Longrightarrow> tallied (cs ! k) \<Longrightarrow> \<not> tallied c \<Longrightarrow>
     length (filter tallied cs) = Suc (length (filter tallied (cs[k := c])))"
  using length_filter_update [of k cs tallied c] by simp

lemma tallied_same:
  "k < length cs \<Longrightarrow> tallied (cs ! k) = tallied c \<Longrightarrow>
     length (filter tallied (cs[k := c])) = length (filter tallied cs)"
  using length_filter_update [of k cs tallied c] by simp

lemma inv_tally_step:
  assumes "inv_state n s" "step n s e = Some s'" "inv_tally s"
  shows "inv_tally s'"
  using assms(2) no_panic [OF assms(1,2)] assms(1,3)
proof (cases rule: stepE)
  case (Tally k v)
  then show ?thesis using assms(1,3)
    by (simp add: inv_tally_def inv_state_def inv_len_def sum_list_incr tallied_gain)
next
  case (SendOut k v)
  then have "length (filter tallied (cpc s)) = Suc (length (filter tallied ((cpc s)[k := CRange])))"
    using assms(1) by (simp add: inv_state_def inv_len_def tallied_lose)
  then show ?thesis using SendOut assms(3)
    by (simp add: inv_tally_def)
qed (simp_all add: inv_tally_def inv_state_def inv_len_def tallied_same)

lemma inv_branch_step:
  assumes "inv_state n s" "step n s e = Some s'" "inv_branch n tr s"
  shows "inv_branch n (tr @ [e]) s'"
  using assms(2) no_panic [OF assms(1,2)] assms(1,3)
  by (cases rule: stepE)
     (auto simp: inv_branch_def inv_state_def inv_len_def worker_in_def worker_out_def
        collector_out_def nth_list_update)

lemma inv_closes_step:
  assumes "inv_state n s" "step n s e = Some s'" "inv_closes n tr s"
  shows "inv_closes n (tr @ [e]) s'"
  using assms(2) no_panic [OF assms(1,2)] assms(1,3)
  by (cases rule: stepE)
     (auto simp: inv_closes_def inv_state_def inv_len_def inv_worker_def nth_list_update)

lemma inv_trace_init: "inv_trace n [] (init n)"
  by (simp add: inv_trace_def sent_def received_def observed_def in_flight_def init_def
      inv_counters_def inv_generator_def inv_tally_def inv_branch_def inv_closes_def
      worker_in_def worker_out_def collector_out_def sum_list_replicate)

lemma inv_trace_step:
  assumes "inv_state n s" "step n s e = Some s'" "inv_trace n tr s"
  shows "inv_trace n (tr @ [e]) s'"
  using conserve_step [OF assms(1,2)] inv_counters_step [OF assms(1,2)]
    inv_generator_step [OF assms(1,2)] inv_tally_step [OF assms(1,2)]
    inv_branch_step [OF assms(1,2)] inv_closes_step [OF assms(1,2)] assms(3)
  by (simp add: inv_trace_def)

lemma inv_run:
  assumes "run n tr (init n) = Some s"
  shows "inv_state n s \<and> inv_trace n tr s"
  using assms
proof (induction rule: run_induct)
  case Init
  show ?case using inv_state_init inv_trace_init by simp
next
  case (Step tr s e s')
  then show ?case using inv_state_step inv_trace_step by blast
qed

lemma concat_map_Nil: "(\<And>k. k < length xs \<Longrightarrow> f (xs ! k) = []) \<Longrightarrow> concat (map f xs) = []"
  by (auto simp: in_set_conv_nth)

lemma filter_none: "(\<And>k. k < length xs \<Longrightarrow> \<not> P (xs ! k)) \<Longrightarrow> filter P xs = []"
  by (auto simp: filter_empty_conv in_set_conv_nth)

text \<open>Once main has left its loop, every goroutine has finished.\<close>

lemma drained_all_done:
  assumes "inv_state n s" "mpc s \<noteq> MRange"
  shows "chOut s = []" "chOut_closed s" "kpc s = KDone" "wg s = 0"
    "\<And>k. k < n \<Longrightarrow> cpc s ! k = CDone \<and> outs_closed s ! k \<and> wpc s ! k = WDone"
    "0 < n \<Longrightarrow> chIn_closed s \<and> gpc s = GDone \<and> ctx_done s"
proof -
  have a: "inv_len n s" "inv_gen s" "inv_worker n s" "inv_coll n s" "inv_closer s"
    using assms(1) by (simp_all add: inv_state_def)
  show 1: "chOut s = []" "chOut_closed s" "kpc s = KDone" "wg s = 0"
    using a(5) assms(2) by (auto simp: inv_closer_def)
  show 2: "cpc s ! k = CDone \<and> outs_closed s ! k \<and> wpc s ! k = WDone" if "k < n" for k
    using all_done [OF a(1) a(4) 1(4) that] a(3,4) that
    by (auto simp: inv_worker_def inv_coll_def)
  show "chIn_closed s \<and> gpc s = GDone \<and> ctx_done s" if "0 < n"
    using 2 [OF that] a(2,3) that by (auto simp: inv_worker_def inv_gen_def)
qed

lemma drained_in_flight:
  assumes "inv_state n s" "mpc s \<noteq> MRange"
  shows "in_flight s = []" "filter tallied (cpc s) = []"
proof -
  have len: "length (wpc s) = n" "length (cpc s) = n"
    using assms(1) by (simp_all add: inv_state_def inv_len_def)
  have "concat (map held_w (wpc s)) = []"
    using drained_all_done(5) [OF assms] len by (intro concat_map_Nil) simp
  moreover have "concat (map held_c (cpc s)) = []"
    using drained_all_done(5) [OF assms] len by (intro concat_map_Nil) simp
  ultimately show "in_flight s = []"
    using drained_all_done(1) [OF assms] by (simp add: in_flight_def)
  show "filter tallied (cpc s) = []"
    using drained_all_done(5) [OF assms] len by (intro filter_none) simp
qed

lemma sum_list_mset_cong:
  fixes xs ys :: "int64 list"
  shows "mset xs = mset ys \<Longrightarrow> sum_list xs = sum_list ys"
  by (metis sum_mset_sum_list)

lemma final_conservation:
  assumes "run n tr (init n) = Some s" "0 < n" "mpc s \<noteq> MRange"
  shows "mset (received tr) = mset (sent tr)" "observed tr = sent tr"
    "count_main s = inputCount s" "sum_main s = inputSum s"
    "sum_list (amounts s) = count_main s"
proof -
  have i: "inv_state n s" "inv_trace n tr s" using inv_run [OF assms(1)] by simp_all
  have g: "gpc s = GDone" using drained_all_done(6) [OF i(1) assms(3) assms(2)] by simp
  show m: "mset (received tr) = mset (sent tr)"
    using i(2) drained_in_flight(1) [OF i(1) assms(3)] by (simp add: inv_trace_def)
  show o: "observed tr = sent tr"
    using i(2) g by (simp add: inv_trace_def inv_generator_def)
  have l: "length (received tr) = length (sent tr)"
    using m by (metis size_mset)
  show "count_main s = inputCount s"
    using i(2) l o by (simp add: inv_trace_def inv_counters_def)
  show "sum_main s = inputSum s"
    using i(2) o sum_list_mset_cong [OF m] by (simp add: inv_trace_def inv_counters_def)
  show "sum_list (amounts s) = count_main s"
    using i(2) drained_in_flight(2) [OF i(1) assms(3)] drained_all_done(1) [OF i(1) assms(3)]
    by (simp add: inv_trace_def inv_tally_def)
qed

lemma foldl_minus:
  fixes c :: int64
  shows "foldl (\<lambda>c v. c - v) c xs = c - sum_list xs"
  by (induction xs arbitrary: c) (simp_all add: algebra_simps)

lemma sample_run_final: "run NumOut sample_run (init NumOut) = Some sample_final"
  by code_simp

section \<open>The claims\<close>

text \<open>
  Claim C1.  In every run with \<open>n \<ge> 1\<close> workers in which main has left its receive loop
  (whenever the timeout came), the values main received from \<open>chOut\<close> are, as a
  multiset, the values the Generator sent into \<open>chIn\<close>: nothing is lost and nothing is
  duplicated.  Main's \<open>count\<close> and \<open>sum\<close> are the number and the sum of the values
  received, \<open>inputCount\<close> and \<open>inputSum\<close> those of the values sent, and they agree.
\<close>

theorem multiset_conservation:
  assumes "run n tr (init n) = Some s" and "1 \<le> n" and "mpc s \<noteq> MRange"
  shows "mset (received tr) = mset (sent tr) \<and>
         count_main s = inputCount s \<and> sum_main s = inputSum s \<and>
         count_main s = of_nat (length (received tr)) \<and> sum_main s = sum_list (received tr) \<and>
         inputCount s = of_nat (length (sent tr)) \<and> inputSum s = sum_list (sent tr)"
proof -
  have n: "0 < n" using assms(2) by simp
  have c: "count_main s = of_nat (length (received tr))" "sum_main s = sum_list (received tr)"
    "inputCount s = of_nat (length (observed tr))" "inputSum s = sum_list (observed tr)"
    using inv_run [OF assms(1)] by (simp_all add: inv_trace_def inv_counters_def)
  note f = final_conservation [OF assms(1) n assms(3)]
  show ?thesis using c f(1) f(3) f(4) unfolding f(2) by blast
qed

theorem multiset_conservation_witness:
  "run NumOut sample_run (init NumOut) = Some sample_final \<and> 1 \<le> NumOut \<and>
   mpc sample_final \<noteq> MRange \<and>
   mset (received sample_run) = mset (sent sample_run) \<and>
   count_main sample_final = inputCount sample_final \<and>
   sum_main sample_final = inputSum sample_final"
proof -
  have r: "run NumOut sample_run (init NumOut) = Some sample_final" by code_simp
  have n: "1 \<le> NumOut" by (simp add: NumOut_def)
  have m: "mpc sample_final \<noteq> MRange" by (simp add: sample_final_def)
  show ?thesis using multiset_conservation [OF r n m] r n m by simp
qed

text \<open>
  Claim C2.  In every complete run the per-worker counters \<open>amounts[0..n-1]\<close> add up to
  main's \<open>count\<close> and to \<open>inputCount\<close>; counter \<open>k\<close> is the number of values collector
  \<open>k\<close> put into \<open>chOut\<close>, and these are exactly the values Worker \<open>k\<close> received.
\<close>

theorem tally_partition:
  assumes "run n tr (init n) = Some s" and "1 \<le> n" and "mpc s \<noteq> MRange"
  shows "sum_list (amounts s) = count_main s \<and> sum_list (amounts s) = inputCount s \<and>
         (\<forall>k<n. amounts s ! k = of_nat (length (collector_out k tr)) \<and>
                collector_out k tr = worker_in k tr)"
proof -
  have n: "0 < n" using assms(2) by simp
  have i: "inv_state n s" "inv_branch n tr s"
    using inv_run [OF assms(1)] by (simp_all add: inv_trace_def)
  have "amounts s ! k = of_nat (length (collector_out k tr)) \<and>
        collector_out k tr = worker_in k tr" if "k < n" for k
    using i(2) drained_all_done(5) [OF i(1) assms(3) that] that
    by (simp add: inv_branch_def)
  then show ?thesis
    using final_conservation [OF assms(1) n assms(3)] by simp
qed

theorem tally_partition_witness:
  "run NumOut sample_run (init NumOut) = Some sample_final \<and> 1 \<le> NumOut \<and>
   mpc sample_final \<noteq> MRange \<and>
   sum_list (amounts sample_final) = count_main sample_final \<and>
   sum_list (amounts sample_final) = inputCount sample_final"
proof -
  have r: "run NumOut sample_run (init NumOut) = Some sample_final" by code_simp
  have n: "1 \<le> NumOut" by (simp add: NumOut_def)
  have m: "mpc sample_final \<noteq> MRange" by (simp add: sample_final_def)
  show ?thesis using tally_partition [OF r n m] r n m by auto
qed

text \<open>
  Claim C7.  The checks of lines 134-145 compare \<open>inputCount\<close> with \<open>count\<close>, \<open>inputSum\<close>
  with \<open>sum\<close>, and the total of \<open>amounts\<close> with \<open>inputCount\<close>; the process ends in
  \<open>log.Fatalf\<close> exactly when one of the three differs, and returns normally, with no
  diagnostic, exactly when all three agree.
\<close>

theorem verifier_fatal_iff_mismatch:
  "(Verifier inSum inCount sm cnt amts = Inr () \<longleftrightarrow>
      inCount = cnt \<and> inSum = sm \<and> sum_list amts = inCount) \<and>
   ((\<exists>d. Verifier inSum inCount sm cnt amts = Inl d) \<longleftrightarrow>
      inCount \<noteq> cnt \<or> inSum \<noteq> sm \<or> sum_list amts \<noteq> inCount) \<and>
   (diagnostics (Verifier inSum inCount sm cnt amts) = [] \<longleftrightarrow>
      inCount = cnt \<and> inSum = sm \<and> sum_list amts = inCount)"
  by (auto simp: Verifier_def diagnostics_def foldl_minus)

theorem verifier_fatal_iff_mismatch_witness:
  "Verifier 3 2 3 2 [1, 0, 0, 1, 0] = Inr () \<and>
   Verifier 3 2 3 2 [1, 0, 0, 0, 0] = Inl SplitMismatch \<and>
   diagnostics (Verifier 3 2 3 1 [1, 0, 0, 1, 0]) \<noteq> []"
  using verifier_fatal_iff_mismatch [of 3 2 3 2 "[1, 0, 0, 1, 0]"]
    verifier_fatal_iff_mismatch [of 3 2 3 2 "[1, 0, 0, 0, 0]"]
    verifier_fatal_iff_mismatch [of 3 2 3 1 "[1, 0, 0, 1, 0]"]
  by (simp add: Verifier_def)

text \<open>
  Claim C10.  The checks run in the order sum, count, split, and the first that fails
  ends the process: a sum mismatch is reported whatever the other two would say, a count
  mismatch only when the sums agree, a split mismatch only when sums and counts agree.
  At most one diagnostic is written.  The split check subtracts every entry of
  \<open>amounts\<close> from \<open>inputCount\<close> and compares what is left with zero.
\<close>

theorem verifier_check_order:
  "(inSum \<noteq> sm \<longrightarrow> Verifier inSum inCount sm cnt amts = Inl (SumMismatch inSum sm)) \<and>
   (inSum = sm \<and> inCount \<noteq> cnt \<longrightarrow>
      Verifier inSum inCount sm cnt amts = Inl (CountMismatch inCount cnt)) \<and>
   (inSum = sm \<and> inCount = cnt \<and> inCount - sum_list amts \<noteq> 0 \<longrightarrow>
      Verifier inSum inCount sm cnt amts = Inl SplitMismatch) \<and>
   (inSum = sm \<and> inCount = cnt \<and> inCount - sum_list amts = 0 \<longrightarrow>
      Verifier inSum inCount sm cnt amts = Inr ()) \<and>
   foldl (\<lambda>c v. c - v) inCount amts = inCount - sum_list amts \<and>
   length (diagnostics (Verifier inSum inCount sm cnt amts)) \<le> 1"
  by (simp add: Verifier_def diagnostics_def foldl_minus)

theorem verifier_check_order_witness:
  "Verifier 4 7 3 2 [1, 0, 0, 0, 0] = Inl (SumMismatch 4 3) \<and>
   Verifier 3 7 3 2 [1, 0, 0, 0, 0] = Inl (CountMismatch 7 2) \<and>
   Verifier 3 2 3 2 [1, 0, 0, 0, 0] = Inl SplitMismatch \<and>
   Verifier 3 2 3 2 [1, 0, 0, 1, 0] = Inr () \<and>
   diagnostics (Verifier 4 7 3 2 [1, 0, 0, 0, 0]) = [SumMismatch 4 3]"
  using verifier_check_order [of 4 3 7 2 "[1, 0, 0, 0, 0]"]
    verifier_check_order [of 3 3 7 2 "[1, 0, 0, 0, 0]"]
    verifier_check_order [of 3 3 2 2 "[1, 0, 0, 0, 0]"]
    verifier_check_order [of 3 3 2 2 "[1, 0, 0, 1, 0]"]
  by (simp add: diagnostics_def)

end
